theory Spec2Isabelle
  imports Main
begin

section \<open>desktoptojson: the escape decoder\<close>

text \<open>
  \<^verbatim>\<open>static QByteArray escapeValue(const QByteArray& input)\<close> of
  \<^verbatim>\<open>src/desktoptojson/desktoptojson.cpp\<close>. A \<^verbatim>\<open>QByteArray\<close> is a list of bytes
  (\<^typ>\<open>char\<close> is an 8-bit character). The \<^verbatim>\<open>for\<close> loop over the index \<^verbatim>\<open>i\<close> is the
  recursion \<open>escapeValue_loop\<close>, whose arguments are the input and the loop's two variables
  \<^verbatim>\<open>i\<close> and \<^verbatim>\<open>result\<close>. The index never leaves the array where it is read: \<^verbatim>\<open>input[i]\<close>
  is read under \<^verbatim>\<open>i < input.length()\<close> and \<^verbatim>\<open>input[i + 1]\<close> after the test
  \<^verbatim>\<open>i + 1 >= input.length()\<close> has failed.
\<close>

abbreviation backslash :: char where
  "backslash \<equiv> CHR 0x5C"

text \<open>
  The \<^verbatim>\<open>switch (nextChar)\<close>: what one iteration appends for the character that follows
  a backslash. \<^verbatim>\<open>'\n'\<close> is byte 10, \<^verbatim>\<open>'\t'\<close> byte 9, \<^verbatim>\<open>'\r'\<close> byte 13.
\<close>

definition escapeSwitch :: "char \<Rightarrow> string" where
  "escapeSwitch nextChar =
     (if nextChar = CHR ''s'' then [CHR '' '']
      else if nextChar = CHR ''n'' then [CHR 0x0A]
      else if nextChar = CHR ''t'' then [CHR 0x09]
      else if nextChar = CHR ''r'' then [CHR 0x0D]
      else if nextChar = backslash then [backslash]
      else [backslash, nextChar])"

text \<open>
  One equation per loop test. The second branch is the \<^verbatim>\<open>break\<close> on a backslash that is
  the last byte; the third is \<^verbatim>\<open>i++\<close> (consume the next character) followed by the
  loop's own \<^verbatim>\<open>++i\<close>.
\<close>

function escapeValue_loop :: "string \<Rightarrow> nat \<Rightarrow> string \<Rightarrow> string" where
  "escapeValue_loop input i result =
     (if i < length input then
        (if input ! i \<noteq> backslash then
           escapeValue_loop input (i + 1) (result @ [input ! i])
         else if i + 1 \<ge> length input then
           result @ [input ! i]
         else
           escapeValue_loop input (i + 1 + 1) (result @ escapeSwitch (input ! (i + 1))))
      else result)"
  by pat_completeness auto
termination
  by (relation "measure (\<lambda>(input, i, result). length input - i)") auto

definition escapeValue :: "string \<Rightarrow> string" where
  "escapeValue input = escapeValue_loop input 0 []"

section \<open>KDirWatchPrivate: the data model of the private header\<close>

text \<open>
  The declarations of \<^verbatim>\<open>class KDirWatchPrivate\<close> (\<^verbatim>\<open>kdirwatch_p.h\<close>). The anonymous
  enum of event flags is used as \<^verbatim>\<open>int\<close> (\<^verbatim>\<open>int pending\<close>, \<^verbatim>\<open>int scanEntry(Entry *)\<close>).
\<close>

datatype entryStatus = Normal | NonExistent

datatype entryMode = UnknownMode | StatMode | INotifyMode | FAMMode | QFSWatchMode

definition NoChange :: int where "NoChange = 0"
definition Changed :: int where "Changed = 1"
definition Created :: int where "Created = 2"
definition Deleted :: int where "Deleted = 4"

text \<open>
  \<^verbatim>\<open>struct Client\<close>. A \<^verbatim>\<open>KDirWatch *\<close> is an address; \<^verbatim>\<open>KDirWatch::WatchModes\<close> is a
  flag word declared in \<^verbatim>\<open>kdirwatch.h\<close>. The field \<^verbatim>\<open>instance\<close> is named \<open>c_instance\<close>
  here.
\<close>

type_synonym KDirWatch_ptr = nat
type_synonym WatchModes = nat

record Client =
  c_instance :: KDirWatch_ptr
  count :: int
  watchingStopped :: bool
  pending :: int
  m_watchModes :: WatchModes

text \<open>
  \<^verbatim>\<open>class Entry\<close>, without the members that exist only under \<^verbatim>\<open>HAVE_FAM\<close> and
  \<^verbatim>\<open>HAVE_SYS_INOTIFY_H\<close>. The list \<^verbatim>\<open>QList<Entry *> m_entries\<close> holds pointers; the type
  \<open>'p\<close> is the type of these pointers, and a heap \<open>'p \<Rightarrow> 'p Entry option\<close> says which
  \<^verbatim>\<open>Entry\<close> a pointer points to (\<open>None\<close> for a pointer to no live object). The clients
  are kept by value: nothing below depends on two lists sharing one \<^verbatim>\<open>Client\<close>.
\<close>

record 'p Entry =
  m_clients :: "Client list"
  m_entries :: "'p list"
  path :: string
  m_ctime :: int
  m_ino :: nat
  m_nlink :: int
  m_status :: entryStatus
  m_mode :: entryMode
  msecLeft :: int
  freq :: int
  isDir :: bool
  dirty :: bool

definition invalid_ctime :: int where
  "invalid_ctime = -1"

definition isValid :: "'p Entry \<Rightarrow> bool" where
  "isValid e = (m_clients e \<noteq> [] \<or> m_entries e \<noteq> [])"

text \<open>
  \<^verbatim>\<open>Entry *findSubEntry(const QString &path) const\<close>: the \<^verbatim>\<open>Q_FOREACH\<close> over
  \<^verbatim>\<open>m_entries\<close>, in list order, returning at the first pointer whose target has the path
  asked for, and the null pointer (\<open>None\<close>) after the loop. Reading
  \<^verbatim>\<open>sub_entry->path\<close> through a pointer to no live object is undefined in C++; the model
  stops there with a fault.
\<close>

datatype fault = DanglingPointer

fun findSubEntry_loop :: "('p \<Rightarrow> 'p Entry option) \<Rightarrow> 'p list \<Rightarrow> string \<Rightarrow> fault + 'p option" where
  "findSubEntry_loop heap [] p = Inr None"
| "findSubEntry_loop heap (sub_entry # rest) p =
     (case heap sub_entry of
        None \<Rightarrow> Inl DanglingPointer
      | Some target \<Rightarrow>
          if path target = p then Inr (Some sub_entry) else findSubEntry_loop heap rest p)"

definition findSubEntry :: "('p \<Rightarrow> 'p Entry option) \<Rightarrow> 'p Entry \<Rightarrow> string \<Rightarrow> fault + 'p option" where
  "findSubEntry heap e p = findSubEntry_loop heap (m_entries e) p"

section \<open>The client registry of an Entry\<close>

text \<open>
  Modelled from the spec: the body of \<^verbatim>\<open>Entry::addClient(KDirWatch *, KDirWatch::WatchModes)\<close>,
  which the header declares and \<^verbatim>\<open>kdirwatch.cpp\<close> (not among the sources) defines. The
  spec: a Client is "created on first registration of a (subscriber, path) pair;
  reference-counted on repeat registration", and "re-registering the same subscriber+path
  increments rather than duplicating". An \<^verbatim>\<open>Entry\<close> is the state of one path, so its
  client list is searched for the subscriber: a Client found has its \<^verbatim>\<open>count\<close> incremented,
  and otherwise a new Client with \<^verbatim>\<open>count\<close> 1, not paused and with nothing pending, is
  appended.
\<close>

fun addClient_list :: "Client list \<Rightarrow> KDirWatch_ptr \<Rightarrow> WatchModes \<Rightarrow> Client list" where
  "addClient_list [] inst watchModes =
     [\<lparr>c_instance = inst, count = 1, watchingStopped = False, pending = NoChange,
       m_watchModes = watchModes\<rparr>]"
| "addClient_list (client # rest) inst watchModes =
     (if c_instance client = inst then client\<lparr>count := count client + 1\<rparr> # rest
      else client # addClient_list rest inst watchModes)"

text \<open>
  Modelled from the spec: \<^verbatim>\<open>Entry::addClient\<close> as an update of the \<^verbatim>\<open>Entry\<close>'s
  \<^verbatim>\<open>m_clients\<close> (see \<open>addClient_list\<close>).
\<close>

definition addClient :: "'p Entry \<Rightarrow> KDirWatch_ptr \<Rightarrow> WatchModes \<Rightarrow> 'p Entry" where
  "addClient e inst watchModes = e\<lparr>m_clients := addClient_list (m_clients e) inst watchModes\<rparr>"

text \<open>
  Modelled from the spec: the body of \<^verbatim>\<open>Entry::removeClient(KDirWatch *)\<close>, declared in the
  header and defined in \<^verbatim>\<open>kdirwatch.cpp\<close> (not among the sources). The spec: a Client is
  "removed when count reaches zero". One call takes back one registration of the
  subscriber: the \<^verbatim>\<open>count\<close> of its Client is decremented, and the Client leaves the list
  when the count has reached zero. A subscriber with no Client leaves the list as it is.
\<close>

fun removeClient_list :: "Client list \<Rightarrow> KDirWatch_ptr \<Rightarrow> Client list" where
  "removeClient_list [] inst = []"
| "removeClient_list (client # rest) inst =
     (if c_instance client = inst then
        (if count client - 1 = 0 then rest else client\<lparr>count := count client - 1\<rparr> # rest)
      else client # removeClient_list rest inst)"

text \<open>
  Modelled from the spec: \<^verbatim>\<open>Entry::removeClient\<close> as an update of the \<^verbatim>\<open>Entry\<close>'s
  \<^verbatim>\<open>m_clients\<close> (see \<open>removeClient_list\<close>).
\<close>

definition removeClient :: "'p Entry \<Rightarrow> KDirWatch_ptr \<Rightarrow> 'p Entry" where
  "removeClient e inst = e\<lparr>m_clients := removeClient_list (m_clients e) inst\<rparr>"

text \<open>
  A history of one \<^verbatim>\<open>Entry\<close>: the registrations and unregistrations of any subscribers,
  in the order they happen.
\<close>

datatype registration = Register KDirWatch_ptr WatchModes | Unregister KDirWatch_ptr

fun apply_registration :: "'p Entry \<Rightarrow> registration \<Rightarrow> 'p Entry" where
  "apply_registration e (Register inst watchModes) = addClient e inst watchModes"
| "apply_registration e (Unregister inst) = removeClient e inst"

definition apply_registrations :: "'p Entry \<Rightarrow> registration list \<Rightarrow> 'p Entry" where
  "apply_registrations e ops = foldl apply_registration e ops"

fun is_Register :: "KDirWatch_ptr \<Rightarrow> registration \<Rightarrow> bool" where
  "is_Register inst (Register inst' watchModes) = (inst' = inst)"
| "is_Register inst (Unregister inst') = False"

fun is_Unregister :: "KDirWatch_ptr \<Rightarrow> registration \<Rightarrow> bool" where
  "is_Unregister inst (Register inst' watchModes) = False"
| "is_Unregister inst (Unregister inst') = (inst' = inst)"

text \<open>How often a subscriber registered, and unregistered, in a history.\<close>

definition registrations :: "KDirWatch_ptr \<Rightarrow> registration list \<Rightarrow> nat" where
  "registrations inst ops = length (filter (is_Register inst) ops)"

definition unregistrations :: "KDirWatch_ptr \<Rightarrow> registration list \<Rightarrow> nat" where
  "unregistrations inst ops = length (filter (is_Unregister inst) ops)"

text \<open>
  A subscriber never takes back a registration it has not made: at every moment of the
  history (after the first \<open>n\<close> operations, for every \<open>n\<close> up to the length of the history)
  it has unregistered at most as often as it has registered.
\<close>

definition never_overdrawn :: "KDirWatch_ptr \<Rightarrow> registration list \<Rightarrow> bool" where
  "never_overdrawn inst ops =
     list_all (\<lambda>n. unregistrations inst (take n ops) \<le> registrations inst (take n ops))
       [0 ..< Suc (length ops)]"

text \<open>
  For the proofs: the registrations a client list holds for a subscriber, and the
  invariant of a client list (one Client per subscriber, each holding at least one
  registration).
\<close>

definition references :: "KDirWatch_ptr \<Rightarrow> Client list \<Rightarrow> int" where
  "references inst clients = sum_list (map count (filter (\<lambda>c. c_instance c = inst) clients))"

definition clients_wf :: "Client list \<Rightarrow> bool" where
  "clients_wf clients \<longleftrightarrow>
     distinct (map c_instance clients) \<and> list_all (\<lambda>c. 1 \<le> count c) clients"

section \<open>The classification of a scan\<close>

text \<open>
  Modelled from the spec: the result of the Metadata Probe, an external collaborator
  "exposing only: \<^verbatim>\<open>read_metadata(path) -> {modification_time, inode, link_count,
  is_directory} | NotFound\<close>". \<open>None\<close> is \<^verbatim>\<open>NotFound\<close>.
\<close>

record Metadata =
  modification_time :: int
  inode :: nat
  link_count :: int
  is_directory :: bool

text \<open>
  Modelled from the spec: the transition classification inside
  \<^verbatim>\<open>int KDirWatchPrivate::scanEntry(Entry *e)\<close>, declared in the header and defined in
  \<^verbatim>\<open>kdirwatch.cpp\<close> (not among the sources). The spec, "given previous and current metadata
  snapshots": "not-existed \<open>\<rightarrow>\<close> exists: Created"; "existed \<open>\<rightarrow>\<close> not-exists: Deleted";
  "existed \<open>\<rightarrow>\<close> existed, (modification_time changed) OR (inode changed) OR (link_count
  changed for a directory, signalling child add/remove): Changed"; "existed \<open>\<rightarrow>\<close> existed,
  nothing observably different: no event". A path that existed in neither snapshot has no
  line in the spec and gives no event. The directory of the third line is the watched
  entry as last observed. The result is one of the header's event flags.
\<close>

definition classify :: "Metadata option \<Rightarrow> Metadata option \<Rightarrow> int" where
  "classify previous current =
     (case previous of
        None \<Rightarrow> (case current of None \<Rightarrow> NoChange | Some now \<Rightarrow> Created)
      | Some before \<Rightarrow>
          (case current of
             None \<Rightarrow> Deleted
           | Some now \<Rightarrow>
               if modification_time now \<noteq> modification_time before
                  \<or> inode now \<noteq> inode before
                  \<or> (is_directory before \<and> link_count now \<noteq> link_count before)
               then Changed else NoChange))"

text \<open>
  Modelled from the spec: the previous snapshot of an \<^verbatim>\<open>Entry\<close>, read from the fields the
  header declares. The spec: "\<^verbatim>\<open>status\<close>: {Normal, NonExistent}" and "\<^verbatim>\<open>last_modified_time\<close>,
  \<^verbatim>\<open>last_inode\<close>, \<^verbatim>\<open>last_link_count\<close>, \<^verbatim>\<open>is_directory\<close>: last observed metadata snapshot".
  An entry whose status is \<^verbatim>\<open>NonExistent\<close> did not exist when last observed.
\<close>

definition lastSnapshot :: "'p Entry \<Rightarrow> Metadata option" where
  "lastSnapshot e =
     (if m_status e = NonExistent then None
      else Some \<lparr>modification_time = m_ctime e, inode = m_ino e, link_count = m_nlink e,
                 is_directory = isDir e\<rparr>)"

text \<open>
  Modelled from the spec: what a scan leaves in the \<^verbatim>\<open>Entry\<close>. The current snapshot
  becomes the last observed one; a path that is found makes the entry \<^verbatim>\<open>Normal\<close>
  ("convert to Normal"), one that is not found makes it \<^verbatim>\<open>NonExistent\<close> ("status becomes
  NonExistent").
\<close>

definition storeSnapshot :: "'p Entry \<Rightarrow> Metadata option \<Rightarrow> 'p Entry" where
  "storeSnapshot e current =
     (case current of
        None \<Rightarrow> e\<lparr>m_status := NonExistent\<rparr>
      | Some now \<Rightarrow>
          e\<lparr>m_status := Normal, m_ctime := modification_time now, m_ino := inode now,
            m_nlink := link_count now, isDir := is_directory now\<rparr>)"

text \<open>
  Modelled from the spec: \<^verbatim>\<open>scanEntry\<close> on an entry and the probe's answer for its path:
  the event of the transition, and the entry with the current snapshot stored. Backends,
  the poll timer and dirty propagation (section 4.3 of the spec) are not part of it.
\<close>

definition scanEntry :: "'p Entry \<Rightarrow> Metadata option \<Rightarrow> int \<times> 'p Entry" where
  "scanEntry e current = (classify (lastSnapshot e) current, storeSnapshot e current)"

section \<open>Values for the examples\<close>

text \<open>An entry for a path that was never observed, with the sub-entries given.\<close>

definition unobserved_entry :: "string \<Rightarrow> 'p list \<Rightarrow> 'p Entry" where
  "unobserved_entry p subs =
     \<lparr>m_clients = [], m_entries = subs, path = p, m_ctime = invalid_ctime, m_ino = 0,
      m_nlink = 0, m_status = NonExistent, m_mode = UnknownMode, msecLeft = 0, freq = 0,
      isDir = False, dirty = False\<rparr>"

text \<open>A heap of three entries, at the addresses 1, 2 and 3; two of them have one path.\<close>

definition example_heap :: "nat \<Rightarrow> nat Entry option" where
  "example_heap a =
     (if a = 1 then Some (unobserved_entry ''/a'' [])
      else if a = 2 then Some (unobserved_entry ''/b'' [])
      else if a = 3 then Some (unobserved_entry ''/b'' [])
      else None)"

text \<open>
  A file and a directory as the probe reports them, with the modification time and the
  link count given.
\<close>

definition example_file :: "int \<Rightarrow> int \<Rightarrow> Metadata" where
  "example_file t n = \<lparr>modification_time = t, inode = 5, link_count = n, is_directory = False\<rparr>"

definition example_dir :: "int \<Rightarrow> int \<Rightarrow> Metadata" where
  "example_dir t n = \<lparr>modification_time = t, inode = 6, link_count = n, is_directory = True\<rparr>"

section \<open>The escape decoder: proofs\<close>

declare escapeValue_loop.simps [simp del]

text \<open>The loop only ever appends to \<^verbatim>\<open>result\<close>.\<close>

lemma escapeValue_loop_acc:
  "escapeValue_loop input i result = result @ escapeValue_loop input i []"
proof (induction "length input - i" arbitrary: i result rule: less_induct)
  case less
  show ?case
  proof (cases "i < length input")
    case False
    then show ?thesis by (simp add: escapeValue_loop.simps [of input i])
  next
    case inside: True
    show ?thesis
    proof (cases "input ! i \<noteq> backslash")
      case True
      have d: "length input - (i + 1) < length input - i" using inside by simp
      show ?thesis
        using inside True less [OF d, of "result @ [input ! i]"] less [OF d, of "[input ! i]"]
        by (simp add: escapeValue_loop.simps [of input i])
    next
      case bs: False
      show ?thesis
      proof (cases "i + 1 \<ge> length input")
        case True
        then show ?thesis using inside bs by (simp add: escapeValue_loop.simps [of input i])
      next
        case False
        have d: "length input - (i + 1 + 1) < length input - i" using inside by simp
        show ?thesis
          using inside bs False less [OF d, of "result @ escapeSwitch (input ! (i + 1))"]
            less [OF d, of "escapeSwitch (input ! (i + 1))"]
          by (simp add: escapeValue_loop.simps [of input i])
      qed
    qed
  qed
qed

text \<open>Running from index \<open>i + 1\<close> of \<open>c # input\<close> is running from index \<open>i\<close> of \<open>input\<close>.\<close>

lemma escapeValue_loop_shift:
  "escapeValue_loop (c # input) (Suc i) result = escapeValue_loop input i result"
proof (induction "length input - i" arbitrary: i result rule: less_induct)
  case less
  show ?case
  proof (cases "i < length input")
    case False
    then show ?thesis
      by (simp add: escapeValue_loop.simps [of input i]
          escapeValue_loop.simps [of "c # input" "Suc i"])
  next
    case inside: True
    have d1: "length input - (i + 1) < length input - i" using inside by simp
    have d2: "length input - (i + 1 + 1) < length input - i" using inside by simp
    show ?thesis
      using inside less [OF d1] less [OF d2]
      by (simp add: escapeValue_loop.simps [of input i]
          escapeValue_loop.simps [of "c # input" "Suc i"])
  qed
qed

lemma escapeValue_Nil: "escapeValue [] = []"
  by (simp add: escapeValue_def escapeValue_loop.simps [of "[]" 0])

lemma escapeValue_plain:
  "c \<noteq> backslash \<Longrightarrow> escapeValue (c # rest) = c # escapeValue rest"
  unfolding escapeValue_def
  using escapeValue_loop_acc [of "c # rest" 1 "[c]"] escapeValue_loop_shift [of c rest 0 "[]"]
  by (simp add: escapeValue_loop.simps [of "c # rest" 0])

lemma escapeValue_lone: "escapeValue [backslash] = [backslash]"
  by (simp add: escapeValue_def escapeValue_loop.simps [of "[backslash]" 0])

lemma escapeValue_pair:
  "escapeValue (backslash # c # rest) = escapeSwitch c @ escapeValue rest"
  unfolding escapeValue_def
  using escapeValue_loop_acc [of "backslash # c # rest" 2 "escapeSwitch c"]
    escapeValue_loop_shift [of backslash "c # rest" 1 "[]"]
    escapeValue_loop_shift [of c rest 0 "[]"]
  by (simp add: escapeValue_loop.simps [of "backslash # c # rest" 0] numeral_2_eq_2)

lemma escapeValue_no_backslash:
  "backslash \<notin> set input \<Longrightarrow> escapeValue input = input"
  by (induction input) (auto simp: escapeValue_Nil escapeValue_plain)

text \<open>A prefix without a backslash is copied, and decoding goes on behind it.\<close>

lemma escapeValue_prefix:
  "backslash \<notin> set pre \<Longrightarrow> escapeValue (pre @ rest) = pre @ escapeValue rest"
  by (induction pre) (auto simp: escapeValue_plain)


text \<open>
  Claim C10. For every input byte string, \<open>escapeValue\<close> decodes the two-character sequences
  backslash-s, backslash-n, backslash-t, backslash-r and backslash-backslash to a space, a
  newline, a tab, a carriage return and one backslash; it keeps a backslash followed by
  any other character as both characters; it keeps a lone backslash at the end of the
  input; and it returns an input without a backslash unchanged. The statement reads the
  input from its first backslash: \<open>pre\<close> is the part before it (any bytes but a backslash),
  which is copied, and \<open>rest\<close> is what follows the escape sequence, decoded in its turn by
  the same rules. Every input is \<open>pre\<close> alone, \<open>pre\<close> and a last backslash, or \<open>pre\<close>, a
  backslash, a character and a rest.
\<close>

theorem escapeValue_decodes:
  "backslash \<notin> set pre \<longrightarrow>
     escapeValue (pre @ backslash # CHR ''s'' # rest) = pre @ CHR '' '' # escapeValue rest
   \<and> escapeValue (pre @ backslash # CHR ''n'' # rest) = pre @ CHR 0x0A # escapeValue rest
   \<and> escapeValue (pre @ backslash # CHR ''t'' # rest) = pre @ CHR 0x09 # escapeValue rest
   \<and> escapeValue (pre @ backslash # CHR ''r'' # rest) = pre @ CHR 0x0D # escapeValue rest
   \<and> escapeValue (pre @ backslash # backslash # rest) = pre @ backslash # escapeValue rest
   \<and> (c \<notin> {CHR ''s'', CHR ''n'', CHR ''t'', CHR ''r'', backslash} \<longrightarrow>
        escapeValue (pre @ backslash # c # rest) = pre @ backslash # c # escapeValue rest)
   \<and> escapeValue (pre @ [backslash]) = pre @ [backslash]
   \<and> escapeValue pre = pre"
  by (simp add: escapeValue_prefix escapeValue_pair escapeValue_lone escapeValue_no_backslash
      escapeSwitch_def)

text \<open>The theorem at the prefix \<open>ab\<close> and the rest \<open>cd\<close>, with \<open>x\<close> as the other character.\<close>

theorem escapeValue_decodes_witness:
  "backslash \<notin> set ''ab'' \<and> backslash \<notin> set ''cd''
   \<and> escapeValue (''ab'' @ backslash # CHR ''s'' # ''cd'') = ''ab cd''
   \<and> escapeValue (''ab'' @ backslash # CHR ''n'' # ''cd'') = ''ab'' @ CHR 0x0A # ''cd''
   \<and> escapeValue (''ab'' @ backslash # CHR ''t'' # ''cd'') = ''ab'' @ CHR 0x09 # ''cd''
   \<and> escapeValue (''ab'' @ backslash # CHR ''r'' # ''cd'') = ''ab'' @ CHR 0x0D # ''cd''
   \<and> escapeValue (''ab'' @ backslash # backslash # ''cd'') = ''ab'' @ backslash # ''cd''
   \<and> escapeValue (''ab'' @ backslash # CHR ''x'' # ''cd'') = ''ab'' @ backslash # ''xcd''
   \<and> escapeValue (''ab'' @ [backslash]) = ''ab'' @ [backslash]
   \<and> escapeValue ''cd'' = ''cd''"
  using escapeValue_decodes [of "''ab''" "''cd''" "CHR ''x''"]
    escapeValue_decodes [of "''cd''" "[]" "CHR ''x''"]
  by simp

section \<open>Entry: isValid and findSubEntry\<close>

lemma isValid_iff:
  "isValid e \<longleftrightarrow> 1 \<le> length (m_clients e) \<or> 1 \<le> length (m_entries e)"
  by (cases "m_clients e"; cases "m_entries e") (simp_all add: isValid_def)

lemma findSubEntry_loop_find:
  "\<forall>s \<in> set xs. heap s \<noteq> None \<Longrightarrow>
     findSubEntry_loop heap xs p = Inr (find (\<lambda>s. map_option path (heap s) = Some p) xs)"
  by (induction xs) auto

lemma findSubEntry_loop_returns:
  "findSubEntry_loop heap xs p = Inr r \<Longrightarrow>
     r = find (\<lambda>s. map_option path (heap s) = Some p) xs"
  by (induction xs) (auto split: option.splits if_splits)

text \<open>
  Claim C9. For every \<^verbatim>\<open>Entry\<close> and every path string, \<open>findSubEntry\<close> returns the first
  pointer of the entry's sub-entry list whose target has the given path, and null (\<open>None\<close>)
  when no sub-entry has that path; on an entry with an empty sub-entry list it returns
  null for every input. Whenever the function returns, what it returns is the first match
  of the list (\<open>find\<close>): a pointer at some index \<open>i\<close> whose target has the path while no
  target at an index before \<open>i\<close> has it, or null when no target has it. Where every
  pointer of the list points to a live \<^verbatim>\<open>Entry\<close> the function does return.
\<close>

theorem findSubEntry_first_match:
  "(\<forall>r. findSubEntry heap e p = Inr r \<longrightarrow>
        r = find (\<lambda>s. map_option path (heap s) = Some p) (m_entries e))
   \<and> (\<forall>s. findSubEntry heap e p = Inr (Some s) \<longrightarrow>
        (\<exists>i < length (m_entries e).
           m_entries e ! i = s \<and> map_option path (heap s) = Some p
           \<and> (\<forall>j < i. map_option path (heap (m_entries e ! j)) \<noteq> Some p)))
   \<and> (findSubEntry heap e p = Inr None \<longrightarrow>
        (\<forall>s \<in> set (m_entries e). map_option path (heap s) \<noteq> Some p))
   \<and> ((\<forall>s \<in> set (m_entries e). heap s \<noteq> None) \<longrightarrow>
        findSubEntry heap e p
          = Inr (find (\<lambda>s. map_option path (heap s) = Some p) (m_entries e)))
   \<and> ((\<forall>s \<in> set (m_entries e). heap s \<noteq> None)
        \<and> (\<forall>s \<in> set (m_entries e). map_option path (heap s) \<noteq> Some p) \<longrightarrow>
        findSubEntry heap e p = Inr None)
   \<and> (m_entries e = [] \<longrightarrow> findSubEntry heap e p = Inr None)"
proof -
  let ?found = "find (\<lambda>s. map_option path (heap s) = Some p) (m_entries e)"
  have returned: "r = ?found" if "findSubEntry heap e p = Inr r" for r
    using that unfolding findSubEntry_def by (rule findSubEntry_loop_returns)
  have first: "\<exists>i < length (m_entries e).
           m_entries e ! i = s \<and> map_option path (heap s) = Some p
           \<and> (\<forall>j < i. map_option path (heap (m_entries e ! j)) \<noteq> Some p)"
    if "findSubEntry heap e p = Inr (Some s)" for s
  proof -
    have "?found = Some s" using returned [OF that] by simp
    then show ?thesis by (auto simp: find_Some_iff)
  qed
  have none: "\<forall>s \<in> set (m_entries e). map_option path (heap s) \<noteq> Some p"
    if "findSubEntry heap e p = Inr None"
  proof -
    have "?found = None" using returned [OF that] by simp
    then show ?thesis by (auto simp: find_None_iff)
  qed
  have live: "findSubEntry heap e p = Inr ?found"
    if "\<forall>s \<in> set (m_entries e). heap s \<noteq> None"
    unfolding findSubEntry_def using that by (rule findSubEntry_loop_find)
  have live_none: "findSubEntry heap e p = Inr None"
    if "(\<forall>s \<in> set (m_entries e). heap s \<noteq> None)
      \<and> (\<forall>s \<in> set (m_entries e). map_option path (heap s) \<noteq> Some p)"
  proof -
    have "?found = None" using that by (simp add: find_None_iff)
    then show ?thesis using live that by simp
  qed
  have empty: "findSubEntry heap e p = Inr None" if "m_entries e = []"
    using that by (simp add: findSubEntry_def)
  show ?thesis
    apply (intro conjI allI impI)
    subgoal for r by (rule returned)
    subgoal for s by (rule first)
    subgoal by (rule none)
    subgoal by (rule live)
    subgoal by (rule live_none)
    subgoal by (rule empty)
    done
qed

text \<open>
  The theorem on the example heap: of the sub-entries 1, 2 and 3 the second is the first
  with the path \<open>/b\<close>, none has the path \<open>/c\<close>, and an empty list gives null.
\<close>

theorem findSubEntry_first_match_witness:
  "list_all (\<lambda>s. example_heap s \<noteq> None) (m_entries (unobserved_entry ''/'' [1, 2, 3]))
   \<and> findSubEntry example_heap (unobserved_entry ''/'' [1, 2, 3]) ''/b'' = Inr (Some 2)
   \<and> list_all (\<lambda>s. map_option path (example_heap s) \<noteq> Some ''/c'')
        (m_entries (unobserved_entry ''/'' [1, 2, 3]))
   \<and> findSubEntry example_heap (unobserved_entry ''/'' [1, 2, 3]) ''/c'' = Inr None
   \<and> m_entries (unobserved_entry ''/'' ([] :: nat list)) = []
   \<and> findSubEntry example_heap (unobserved_entry ''/'' []) ''/a'' = Inr None"
proof -
  let ?e = "unobserved_entry ''/'' [1, 2, 3] :: nat Entry"
  let ?none = "unobserved_entry ''/'' [] :: nat Entry"
  have subs: "m_entries ?e = [1, 2, 3]"
    by (simp add: unobserved_entry_def)
  have live: "\<forall>s \<in> set (m_entries ?e). example_heap s \<noteq> None"
    unfolding subs by (simp add: example_heap_def)
  have no_c: "\<forall>s \<in> set (m_entries ?e). map_option path (example_heap s) \<noteq> Some ''/c''"
    unfolding subs by (simp add: example_heap_def unobserved_entry_def)
  have found: "find (\<lambda>s. map_option path (example_heap s) = Some ''/b'') (m_entries ?e) = Some 2"
    unfolding subs by (simp add: example_heap_def unobserved_entry_def)
  have none: "m_entries ?none = []"
    by (simp add: unobserved_entry_def)
  note at_b = findSubEntry_first_match [of example_heap ?e "''/b''"]
  note at_c = findSubEntry_first_match [of example_heap ?e "''/c''"]
  note at_a = findSubEntry_first_match [of example_heap ?none "''/a''"]
  have "findSubEntry example_heap ?e ''/b''
      = Inr (find (\<lambda>s. map_option path (example_heap s) = Some ''/b'') (m_entries ?e))"
    using at_b [THEN conjunct2, THEN conjunct2, THEN conjunct2, THEN conjunct1] live
    by (rule mp)
  then have b: "findSubEntry example_heap ?e ''/b'' = Inr (Some 2)"
    unfolding found .
  have c: "findSubEntry example_heap ?e ''/c'' = Inr None"
    using at_c [THEN conjunct2, THEN conjunct2, THEN conjunct2, THEN conjunct2, THEN conjunct1]
      conjI [OF live no_c]
    by (rule mp)
  have a: "findSubEntry example_heap ?none ''/a'' = Inr None"
    using at_a [THEN conjunct2, THEN conjunct2, THEN conjunct2, THEN conjunct2, THEN conjunct2]
      none
    by (rule mp)
  have l1: "list_all (\<lambda>s. example_heap s \<noteq> None) (m_entries ?e)"
    using live by (simp only: list_all_iff)
  have l2: "list_all (\<lambda>s. map_option path (example_heap s) \<noteq> Some ''/c'') (m_entries ?e)"
    using no_c by (simp only: list_all_iff)
  from l1 b l2 c none a show ?thesis by (intro conjI)
qed

section \<open>The client registry: proofs\<close>

lemma instances_addClient_list:
  "set (map c_instance (addClient_list cs inst w)) = insert inst (set (map c_instance cs))"
  by (induction cs) auto

lemma instances_removeClient_list:
  "set (map c_instance (removeClient_list cs inst)) \<subseteq> set (map c_instance cs)"
  by (induction cs) auto

lemma clients_wf_addClient_list:
  "clients_wf cs \<Longrightarrow> clients_wf (addClient_list cs inst w)"
proof (induction cs)
  case Nil
  then show ?case by (simp add: clients_wf_def)
next
  case (Cons c cs)
  then have "clients_wf cs" by (simp add: clients_wf_def)
  then have "clients_wf (addClient_list cs inst w)" by (rule Cons.IH)
  then show ?case
    using Cons.prems instances_addClient_list [of cs inst w]
    by (auto simp: clients_wf_def)
qed

lemma clients_wf_removeClient_list:
  "clients_wf cs \<Longrightarrow> clients_wf (removeClient_list cs inst)"
proof (induction cs)
  case Nil
  then show ?case by (simp add: clients_wf_def)
next
  case (Cons c cs)
  then have "clients_wf cs" by (simp add: clients_wf_def)
  then have "clients_wf (removeClient_list cs inst)" by (rule Cons.IH)
  then show ?case
    using Cons.prems instances_removeClient_list [of cs inst]
    by (auto simp: clients_wf_def)
qed

lemma references_addClient_list:
  "references s (addClient_list cs inst w) = references s cs + (if s = inst then 1 else 0)"
  by (induction cs) (auto simp: references_def)

lemma references_removeClient_list:
  "references s (removeClient_list cs inst)
     = references s cs - (if s = inst \<and> inst \<in> set (map c_instance cs) then 1 else 0)"
  by (induction cs) (auto simp: references_def)

lemma references_pos_iff:
  "clients_wf cs \<Longrightarrow> (inst \<in> set (map c_instance cs)) \<longleftrightarrow> 1 \<le> references inst cs"
proof (induction cs)
  case Nil
  then show ?case by (simp add: references_def)
next
  case (Cons c cs)
  then have wf: "clients_wf cs" by (simp add: clients_wf_def)
  show ?case
  proof (cases "c_instance c = inst")
    case True
    then have "inst \<notin> set (map c_instance cs)" using Cons.prems by (auto simp: clients_wf_def)
    then have "\<not> 1 \<le> references inst cs" using Cons.IH [OF wf] by simp
    moreover have "0 \<le> references inst cs" 
      using wf unfolding references_def clients_wf_def
      by (induction cs) auto
    ultimately show ?thesis using True Cons.prems by (auto simp: references_def clients_wf_def)
  next
    case False
    then show ?thesis using Cons.IH [OF wf] by (simp add: references_def)
  qed
qed


lemma m_clients_addClient:
  "m_clients (addClient e inst w) = addClient_list (m_clients e) inst w"
  by (simp add: addClient_def)

lemma m_clients_removeClient:
  "m_clients (removeClient e inst) = removeClient_list (m_clients e) inst"
  by (simp add: removeClient_def)

lemma apply_registrations_snoc:
  "apply_registrations e (ops @ [x]) = apply_registration (apply_registrations e ops) x"
  by (simp add: apply_registrations_def)

lemma clients_wf_apply_registrations:
  "clients_wf (m_clients e) \<Longrightarrow> clients_wf (m_clients (apply_registrations e ops))"
proof (induction ops rule: rev_induct)
  case Nil
  then show ?case by (simp add: apply_registrations_def)
next
  case (snoc x ops)
  then show ?case
    by (cases x)
      (simp_all add: apply_registrations_snoc m_clients_addClient m_clients_removeClient
        clients_wf_addClient_list clients_wf_removeClient_list)
qed

lemma never_overdrawn_iff:
  "never_overdrawn inst ops \<longleftrightarrow>
     (\<forall>n \<le> length ops. unregistrations inst (take n ops) \<le> registrations inst (take n ops))"
  by (auto simp: never_overdrawn_def list_all_iff less_Suc_eq_le)

lemma never_overdrawn_snoc:
  assumes "never_overdrawn inst (ops @ [x])"
  shows "never_overdrawn inst ops"
    and "unregistrations inst (ops @ [x]) \<le> registrations inst (ops @ [x])"
proof -
  show "never_overdrawn inst ops"
    unfolding never_overdrawn_iff
  proof (intro allI impI)
    fix n assume n: "n \<le> length ops"
    then have "n \<le> length (ops @ [x])" by simp
    then have "unregistrations inst (take n (ops @ [x])) \<le> registrations inst (take n (ops @ [x]))"
      using assms unfolding never_overdrawn_iff by blast
    then show "unregistrations inst (take n ops) \<le> registrations inst (take n ops)"
      using n by simp
  qed
  have "length (ops @ [x]) \<le> length (ops @ [x])" by simp
  then have "unregistrations inst (take (length (ops @ [x])) (ops @ [x]))
      \<le> registrations inst (take (length (ops @ [x])) (ops @ [x]))"
    using assms unfolding never_overdrawn_iff by blast
  then show "unregistrations inst (ops @ [x]) \<le> registrations inst (ops @ [x])"
    by simp
qed

lemma references_apply_registrations:
  assumes "m_clients e = []" and "never_overdrawn inst ops"
  shows "references inst (m_clients (apply_registrations e ops))
           = int (registrations inst ops) - int (unregistrations inst ops)"
  using assms(2)
proof (induction ops rule: rev_induct)
  case Nil
  then show ?case
    using assms(1)
    by (simp add: apply_registrations_def references_def registrations_def unregistrations_def)
next
  case (snoc x ops)
  have before: "never_overdrawn inst ops"
    and le: "unregistrations inst (ops @ [x]) \<le> registrations inst (ops @ [x])"
    using never_overdrawn_snoc [OF snoc.prems] by simp_all
  have IH: "references inst (m_clients (apply_registrations e ops))
           = int (registrations inst ops) - int (unregistrations inst ops)"
    using snoc.IH [OF before] .
  have wf: "clients_wf (m_clients (apply_registrations e ops))"
    using assms(1) by (intro clients_wf_apply_registrations) (simp add: clients_wf_def)
  show ?case
  proof (cases x)
    case (Register inst' w)
    then show ?thesis
      using IH
      by (simp add: apply_registrations_snoc m_clients_addClient m_clients_removeClient
          references_addClient_list registrations_def unregistrations_def)
  next
    case (Unregister inst')
    show ?thesis
    proof (cases "inst' = inst")
      case True
      have "1 \<le> references inst (m_clients (apply_registrations e ops))"
        using le IH Unregister True by (simp add: registrations_def unregistrations_def)
      then have "inst \<in> set (map c_instance (m_clients (apply_registrations e ops)))"
        using references_pos_iff [OF wf] by simp
      then show ?thesis
        using IH Unregister True
        by (simp add: apply_registrations_snoc m_clients_addClient m_clients_removeClient
            references_removeClient_list registrations_def unregistrations_def)
    next
      case False
      then show ?thesis
        using IH Unregister
        by (simp add: apply_registrations_snoc m_clients_addClient m_clients_removeClient
            references_removeClient_list registrations_def unregistrations_def)
    qed
  qed
qed

lemma references_single:
  "clients_wf cs \<Longrightarrow> c \<in> set cs \<Longrightarrow> references (c_instance c) cs = count c"
proof (induction cs)
  case Nil
  then show ?case by simp
next
  case (Cons a cs)
  then have wf: "clients_wf cs" by (simp add: clients_wf_def)
  show ?case
  proof (cases "c = a")
    case True
    then have "c_instance c \<notin> set (map c_instance cs)"
      using Cons.prems by (auto simp: clients_wf_def)
    then have "\<forall>x \<in> set cs. c_instance x \<noteq> c_instance c"
      by (metis imageI set_map)
    then have "filter (\<lambda>x. c_instance x = c_instance c) cs = []"
      by (simp add: filter_empty_conv)
    then show ?thesis using True by (simp add: references_def)
  next
    case False
    then have in_cs: "c \<in> set cs" using Cons.prems by simp
    then have "c_instance a \<noteq> c_instance c"
      using Cons.prems by (auto simp: clients_wf_def)
    then show ?thesis using Cons.IH [OF wf in_cs] by (simp add: references_def)
  qed
qed

text \<open>
  Claim C6. Repeated registrations of one (subscriber, path) pair do not create a second
  Client but increment the reference count of the one there is, so the client list of an
  \<^verbatim>\<open>Entry\<close> holds at most one Client per subscriber; the Client is removed only when the
  subscriber has unregistered as often as it has registered. The statement is about any
  history of registrations and unregistrations, of any subscribers, on an entry that
  starts without clients: the subscribers of the clients are distinct; and for a
  subscriber that never unregisters more often than it has registered, its Client is in
  the list exactly while it has unregistered less often than it has registered, and the
  Client's count is the difference of the two numbers.
\<close>

theorem client_reference_counting:
  assumes "m_clients e = []"
  shows "distinct (map c_instance (m_clients (apply_registrations e ops)))
    \<and> (never_overdrawn inst ops \<longrightarrow>
         ((\<exists>c \<in> set (m_clients (apply_registrations e ops)). c_instance c = inst)
            \<longleftrightarrow> unregistrations inst ops < registrations inst ops)
         \<and> (\<forall>c \<in> set (m_clients (apply_registrations e ops)). c_instance c = inst \<longrightarrow>
               count c = int (registrations inst ops) - int (unregistrations inst ops)))"
proof -
  let ?cs = "m_clients (apply_registrations e ops)"
  have wf: "clients_wf ?cs"
    using assms by (intro clients_wf_apply_registrations) (simp add: clients_wf_def)
  have d: "distinct (map c_instance ?cs)" using wf by (simp add: clients_wf_def)
  {
    assume no: "never_overdrawn inst ops"
    have refs: "references inst ?cs = int (registrations inst ops) - int (unregistrations inst ops)"
      using references_apply_registrations [OF assms no] .
    have "(\<exists>c \<in> set ?cs. c_instance c = inst) \<longleftrightarrow> inst \<in> set (map c_instance ?cs)"
      by auto
    also have "\<dots> \<longleftrightarrow> 1 \<le> references inst ?cs"
      using references_pos_iff [OF wf] .
    also have "\<dots> \<longleftrightarrow> unregistrations inst ops < registrations inst ops"
      unfolding refs by linarith
    finally have present: "(\<exists>c \<in> set ?cs. c_instance c = inst)
        \<longleftrightarrow> unregistrations inst ops < registrations inst ops" .
    have "\<forall>c \<in> set ?cs. c_instance c = inst \<longrightarrow>
        count c = int (registrations inst ops) - int (unregistrations inst ops)"
      using references_single [OF wf] refs by auto
    note present this
  }
  with d show ?thesis by blast
qed


text \<open>
  The theorem at two histories of the subscriber 7: after two registrations and one
  unregistration its Client is there, after the second unregistration it is gone.
\<close>

theorem client_reference_counting_witness:
  "m_clients (unobserved_entry ''/f'' ([] :: nat list)) = []
   \<and> never_overdrawn 7 [Register 7 0, Register 9 0, Register 7 1, Unregister 7]
   \<and> distinct (map c_instance (m_clients (apply_registrations
        (unobserved_entry ''/f'' ([] :: nat list))
        [Register 7 0, Register 9 0, Register 7 1, Unregister 7])))
   \<and> (\<exists>c \<in> set (m_clients (apply_registrations (unobserved_entry ''/f'' ([] :: nat list))
        [Register 7 0, Register 9 0, Register 7 1, Unregister 7])). c_instance c = 7)
   \<and> never_overdrawn 7 [Register 7 0, Register 9 0, Register 7 1, Unregister 7, Unregister 7]
   \<and> \<not> (\<exists>c \<in> set (m_clients (apply_registrations (unobserved_entry ''/f'' ([] :: nat list))
        [Register 7 0, Register 9 0, Register 7 1, Unregister 7, Unregister 7])). c_instance c = 7)"
proof -
  let ?e = "unobserved_entry ''/f'' ([] :: nat list)"
  let ?ops = "[Register 7 0, Register 9 0, Register 7 1, Unregister 7]"
  have fresh: "m_clients ?e = []"
    by (simp add: unobserved_entry_def)
  have no1: "never_overdrawn 7 ?ops"
    by (simp add: never_overdrawn_def registrations_def unregistrations_def upt_rec)
  have no2: "never_overdrawn 7 (?ops @ [Unregister 7])"
    by (simp add: never_overdrawn_def registrations_def unregistrations_def upt_rec)
  show ?thesis
    using fresh no1 no2
      client_reference_counting [OF fresh, of ?ops 7]
      client_reference_counting [OF fresh, of "?ops @ [Unregister 7]" 7]
    by (simp add: registrations_def unregistrations_def)
qed

section \<open>The classification of a scan: proofs\<close>

text \<open>
  Claim C1. For every entry with a previous and a current metadata snapshot, the scan
  classifies the transition: a path that did not exist before and exists now is Created;
  one that existed before and does not exist now is Deleted; one that existed in both
  snapshots is Changed exactly when the modification time changed, or the inode changed,
  or (for a directory) the link count changed; otherwise no event is produced
  (\<open>NoChange\<close>, which is none of the three events).
\<close>

theorem scanEntry_classifies:
  "(lastSnapshot e = None \<and> current = Some now \<longrightarrow> fst (scanEntry e current) = Created)
   \<and> (lastSnapshot e = Some before \<and> current = None \<longrightarrow> fst (scanEntry e current) = Deleted)
   \<and> (lastSnapshot e = Some before \<and> current = Some now \<longrightarrow>
        (fst (scanEntry e current) = Changed \<longleftrightarrow>
           modification_time now \<noteq> modification_time before
           \<or> inode now \<noteq> inode before
           \<or> (is_directory before \<and> link_count now \<noteq> link_count before))
        \<and> (fst (scanEntry e current) \<noteq> Changed \<longrightarrow> fst (scanEntry e current) = NoChange))
   \<and> (lastSnapshot e = None \<and> current = None \<longrightarrow> fst (scanEntry e current) = NoChange)
   \<and> distinct [NoChange, Changed, Created, Deleted]"
  by (simp add: scanEntry_def classify_def NoChange_def Changed_def Created_def Deleted_def)

text \<open>
  The theorem at an entry never observed and at the same entry after the scan that found
  its path as a file: found, Created; not found again, Deleted; found with a later
  modification time, Changed; found as before, no event; found with another link count
  only, no event for the file, and Changed for an entry last observed as a directory.
\<close>

theorem scanEntry_classifies_witness:
  "lastSnapshot (unobserved_entry ''/f'' ([] :: nat list)) = None
   \<and> fst (scanEntry (unobserved_entry ''/f'' ([] :: nat list)) (Some (example_file 100 1))) = Created
   \<and> fst (scanEntry (unobserved_entry ''/f'' ([] :: nat list)) None) = NoChange
   \<and> lastSnapshot (snd (scanEntry (unobserved_entry ''/f'' ([] :: nat list))
         (Some (example_file 100 1)))) = Some (example_file 100 1)
   \<and> fst (scanEntry (snd (scanEntry (unobserved_entry ''/f'' ([] :: nat list))
         (Some (example_file 100 1)))) None) = Deleted
   \<and> fst (scanEntry (snd (scanEntry (unobserved_entry ''/f'' ([] :: nat list))
         (Some (example_file 100 1)))) (Some (example_file 101 1))) = Changed
   \<and> fst (scanEntry (snd (scanEntry (unobserved_entry ''/f'' ([] :: nat list))
         (Some (example_file 100 1)))) (Some (example_file 100 1))) = NoChange
   \<and> fst (scanEntry (snd (scanEntry (unobserved_entry ''/f'' ([] :: nat list))
         (Some (example_file 100 1)))) (Some (example_file 100 2))) = NoChange
   \<and> lastSnapshot (snd (scanEntry (unobserved_entry ''/d'' ([] :: nat list))
         (Some (example_dir 100 2)))) = Some (example_dir 100 2)
   \<and> fst (scanEntry (snd (scanEntry (unobserved_entry ''/d'' ([] :: nat list))
         (Some (example_dir 100 2)))) (Some (example_dir 100 3))) = Changed"
proof -
  let ?e = "unobserved_entry ''/f'' ([] :: nat list)"
  let ?e' = "snd (scanEntry ?e (Some (example_file 100 1)))"
  let ?d' = "snd (scanEntry (unobserved_entry ''/d'' ([] :: nat list)) (Some (example_dir 100 2)))"
  have absent: "lastSnapshot ?e = None"
    by (simp add: lastSnapshot_def unobserved_entry_def)
  have present: "lastSnapshot ?e' = Some (example_file 100 1)"
    by (simp add: scanEntry_def lastSnapshot_def storeSnapshot_def example_file_def)
  have dir: "lastSnapshot ?d' = Some (example_dir 100 2)"
    by (simp add: scanEntry_def lastSnapshot_def storeSnapshot_def example_dir_def)
  have created: "fst (scanEntry ?e (Some (example_file 100 1))) = Created"
    using absent scanEntry_classifies [where e = ?e and current = "Some (example_file 100 1)"
        and now = "example_file 100 1"]
    by simp
  have stays_absent: "fst (scanEntry ?e None) = NoChange"
    using absent scanEntry_classifies [where e = ?e and current = None]
    by simp
  have deleted: "fst (scanEntry ?e' None) = Deleted"
    using present
      scanEntry_classifies [where e = ?e' and before = "example_file 100 1" and current = None]
    by simp
  have changed: "fst (scanEntry ?e' (Some (example_file 101 1))) = Changed"
    using present
      scanEntry_classifies [where e = ?e' and before = "example_file 100 1"
        and current = "Some (example_file 101 1)" and now = "example_file 101 1"]
    by (simp add: example_file_def)
  have same: "fst (scanEntry ?e' (Some (example_file 100 1))) = NoChange"
    using present
      scanEntry_classifies [where e = ?e' and before = "example_file 100 1"
        and current = "Some (example_file 100 1)" and now = "example_file 100 1"]
    by (simp add: example_file_def)
  have links_file: "fst (scanEntry ?e' (Some (example_file 100 2))) = NoChange"
    using present
      scanEntry_classifies [where e = ?e' and before = "example_file 100 1"
        and current = "Some (example_file 100 2)" and now = "example_file 100 2"]
    by (simp add: example_file_def)
  have links_dir: "fst (scanEntry ?d' (Some (example_dir 100 3))) = Changed"
    using dir
      scanEntry_classifies [where e = ?d' and before = "example_dir 100 2"
        and current = "Some (example_dir 100 3)" and now = "example_dir 100 3"]
    by (simp add: example_dir_def)
  from absent created stays_absent present deleted changed same links_file dir links_dir
  show ?thesis by (intro conjI)
qed

end
